theory Spec2Isabelle
  imports Complex_Main
begin

section \<open>The object store of \<open>pyfit/engine.py\<close>\<close>

text \<open>
  The engine has one class, \<open>Scalar\<close>. Its instances are mutable objects that refer
  to each other, and several claims are about identity and sharing, so the objects live in
  an explicit store: a list of records in which an object is named by its index. Creating
  an object appends a record; an object is never removed.

  Numbers: \<open>data\<close> and \<open>grad\<close> are Python floats in the source. They are modelled by
  the reals with exact arithmetic; rounding, overflow to infinity and NaN are outside the
  model. Division keeps its Python behaviour of raising \<open>ZeroDivisionError\<close> at a zero
  divisor.
\<close>

type_synonym ref = nat

text \<open>
  The attribute \<open>_backward\<close> holds a closure. Every closure of the source is one of six
  pieces of code together with the objects it captured (\<open>self\<close>, \<open>_other\<close>, \<open>out\<close>):
  the default \<open>lambda: None\<close> of \<open>__init__\<close> and the nested function \<open>_backward\<close> of
  \<open>__add__\<close>, \<open>__sub__\<close>, \<open>__mul__\<close>, \<open>__truediv__\<close> and \<open>relu\<close>.
\<close>

datatype closure =
    NoOp
  | AddBackward ref ref ref
  | SubBackward ref ref ref
  | MulBackward ref ref ref
  | DivBackward ref ref ref
  | ReluBackward ref ref

text \<open>
  The fields \<open>data\<close>, \<open>grad\<close>, \<open>_backward\<close>, \<open>_prev\<close> and \<open>_op\<close>. The set \<open>_prev\<close> is
  held as the list of its elements, without repetition, in the order in which the set is
  iterated.
\<close>

record scalar =
  data :: real
  grad :: real
  backward_fn :: closure
  prev :: "ref list"
  op :: string

type_synonym heap = "scalar list"

datatype error = ZeroDivisionError | AttributeError | TypeError | OverflowError | RecursionError

datatype 'a result = Return 'a | Raise error

text \<open>
  What the right-hand argument of an operator can be: a \<open>Scalar\<close> object, a float, an int
  (or bool), or some other object; strings stand for the objects that have neither an
  attribute \<open>data\<close> nor arithmetic methods.
\<close>

datatype pyval = Node ref | PyFloat real | PyInt int | PyStr string

section \<open>Construction\<close>

text \<open>
  \<open>set(children)\<close>: a Python set of objects is iterated in the order of their hashes,
  which are derived from addresses, so the order of a set of two objects is not fixed by
  the program. The flag chooses between the two possible orders.
\<close>

definition set_of :: "bool \<Rightarrow> ref list \<Rightarrow> ref list" where
  "set_of flip cs = (if flip then rev (remdups cs) else remdups cs)"

text \<open>\<open>Scalar.__init__(data, children, op)\<close>: the new object and the store holding it.\<close>

definition Scalar :: "heap \<Rightarrow> real \<Rightarrow> ref list \<Rightarrow> string \<Rightarrow> bool \<Rightarrow> ref \<times> heap" where
  "Scalar h d cs op_str flip =
     (length h,
      h @ [\<lparr>data = d, grad = 0, backward_fn = NoOp, prev = set_of flip cs, op = op_str\<rparr>])"

text \<open>\<open>Scalar(x)\<close>: a leaf.\<close>

definition leaf :: "heap \<Rightarrow> real \<Rightarrow> ref \<times> heap" where
  "leaf h x = Scalar h x [] [] False"

text \<open>\<open>_other = self_type(other) if isinstance(other, float) else other\<close>\<close>

fun lift :: "heap \<Rightarrow> pyval \<Rightarrow> pyval \<times> heap" where
  "lift h (PyFloat x) = (let (r, h') = leaf h x in (Node r, h'))"
| "lift h v = (v, h)"

text \<open>\<open>out._backward = _backward\<close>\<close>

definition set_backward :: "heap \<Rightarrow> ref \<Rightarrow> closure \<Rightarrow> heap" where
  "set_backward h out c = h[out := (h ! out)\<lparr>backward_fn := c\<rparr>]"

text \<open>
  The four binary operators. Reading \<open>_other.data\<close> raises \<open>AttributeError\<close> when
  \<open>_other\<close> is not a \<open>Scalar\<close>.
\<close>

definition add :: "bool \<Rightarrow> heap \<Rightarrow> ref \<Rightarrow> pyval \<Rightarrow> ref result \<times> heap" where
  "add flip h self other =
     (let (other', h1) = lift h other in
      case other' of
        Node t \<Rightarrow>
          (let (out, h2) = Scalar h1 (data (h1 ! self) + data (h1 ! t)) [self, t] ''+'' flip
           in (Return out, set_backward h2 out (AddBackward self t out)))
      | _ \<Rightarrow> (Raise AttributeError, h1))"

definition sub :: "bool \<Rightarrow> heap \<Rightarrow> ref \<Rightarrow> pyval \<Rightarrow> ref result \<times> heap" where
  "sub flip h self other =
     (let (other', h1) = lift h other in
      case other' of
        Node t \<Rightarrow>
          (let (out, h2) = Scalar h1 (data (h1 ! self) - data (h1 ! t)) [self, t] ''-'' flip
           in (Return out, set_backward h2 out (SubBackward self t out)))
      | _ \<Rightarrow> (Raise AttributeError, h1))"

definition mul :: "bool \<Rightarrow> heap \<Rightarrow> ref \<Rightarrow> pyval \<Rightarrow> ref result \<times> heap" where
  "mul flip h self other =
     (let (other', h1) = lift h other in
      case other' of
        Node t \<Rightarrow>
          (let (out, h2) = Scalar h1 (data (h1 ! self) * data (h1 ! t)) [self, t] ''*'' flip
           in (Return out, set_backward h2 out (MulBackward self t out)))
      | _ \<Rightarrow> (Raise AttributeError, h1))"

definition truediv :: "bool \<Rightarrow> heap \<Rightarrow> ref \<Rightarrow> pyval \<Rightarrow> ref result \<times> heap" where
  "truediv flip h self other =
     (let (other', h1) = lift h other in
      case other' of
        Node t \<Rightarrow>
          if data (h1 ! t) = 0 then (Raise ZeroDivisionError, h1)
          else
            (let (out, h2) = Scalar h1 (data (h1 ! self) / data (h1 ! t)) [self, t] ''/'' flip
             in (Return out, set_backward h2 out (DivBackward self t out)))
      | _ \<Rightarrow> (Raise AttributeError, h1))"

definition relu :: "heap \<Rightarrow> ref \<Rightarrow> ref result \<times> heap" where
  "relu h self =
     (let (out, h1) =
            Scalar h (if data (h ! self) < 0 then 0 else data (h ! self)) [self] ''ReLU'' False
      in (Return out, set_backward h1 out (ReluBackward self out)))"

text \<open>The reflected operators.\<close>

definition radd :: "bool \<Rightarrow> heap \<Rightarrow> ref \<Rightarrow> pyval \<Rightarrow> ref result \<times> heap" where
  "radd flip h self other = add flip h self other"

definition rmul :: "bool \<Rightarrow> heap \<Rightarrow> ref \<Rightarrow> pyval \<Rightarrow> ref result \<times> heap" where
  "rmul flip h self other = mul flip h self other"

text \<open>
  \<open>__rsub__\<close> and \<open>__rtruediv__\<close> call the method of \<open>_other\<close>. When \<open>_other\<close> is an
  int, that is \<open>int.__sub__\<close> (\<open>int.__truediv__\<close>), which returns \<open>NotImplemented\<close> for a
  \<open>Scalar\<close> argument; the operator expression \<open>r - x\<close> then raises \<open>TypeError\<close>. An object
  without the method raises \<open>AttributeError\<close>.
\<close>

definition rsub :: "bool \<Rightarrow> heap \<Rightarrow> ref \<Rightarrow> pyval \<Rightarrow> ref result \<times> heap" where
  "rsub flip h self other =
     (let (other', h1) = lift h other in
      case other' of
        Node t \<Rightarrow> sub flip h1 t (Node self)
      | PyInt _ \<Rightarrow> (Raise TypeError, h1)
      | _ \<Rightarrow> (Raise AttributeError, h1))"

definition rtruediv :: "bool \<Rightarrow> heap \<Rightarrow> ref \<Rightarrow> pyval \<Rightarrow> ref result \<times> heap" where
  "rtruediv flip h self other =
     (let (other', h1) = lift h other in
      case other' of
        Node t \<Rightarrow> truediv flip h1 t (Node self)
      | PyInt _ \<Rightarrow> (Raise TypeError, h1)
      | _ \<Rightarrow> (Raise AttributeError, h1))"

section \<open>The local backward rules\<close>

text \<open>\<open>r.grad += x\<close> and \<open>r.grad -= x\<close>\<close>

definition add_grad :: "heap \<Rightarrow> ref \<Rightarrow> real \<Rightarrow> heap" where
  "add_grad h r x = h[r := (h ! r)\<lparr>grad := grad (h ! r) + x\<rparr>]"

definition sub_grad :: "heap \<Rightarrow> ref \<Rightarrow> real \<Rightarrow> heap" where
  "sub_grad h r x = h[r := (h ! r)\<lparr>grad := grad (h ! r) - x\<rparr>]"

text \<open>
  Calling a closure. Each statement reads the store as the statement before left it. In
  \<open>relu\<close> the factor \<open>out.data > 0\<close> is a bool, which multiplies as 1 or 0.
\<close>

fun call :: "closure \<Rightarrow> heap \<Rightarrow> unit result \<times> heap" where
  "call NoOp h = (Return (), h)"
| "call (AddBackward self t out) h =
     (let h1 = add_grad h self (grad (h ! out));
          h2 = add_grad h1 t (grad (h1 ! out))
      in (Return (), h2))"
| "call (SubBackward self t out) h =
     (let h1 = add_grad h self (grad (h ! out));
          h2 = sub_grad h1 t (grad (h1 ! out))
      in (Return (), h2))"
| "call (MulBackward self t out) h =
     (let h1 = add_grad h self (grad (h ! out) * data (h ! t));
          h2 = add_grad h1 t (grad (h1 ! out) * data (h1 ! self))
      in (Return (), h2))"
| "call (DivBackward self t out) h =
     (if data (h ! t) = 0 then (Raise ZeroDivisionError, h)
      else
        (let h1 = add_grad h self (grad (h ! out) / data (h ! t)) in
         if data (h1 ! t) * data (h1 ! t) = 0 then (Raise ZeroDivisionError, h1)
         else
           (Return (),
            add_grad h1 t
              (grad (h1 ! out) * (- data (h1 ! self) / (data (h1 ! t) * data (h1 ! t)))))))"
| "call (ReluBackward self out) h =
     (Return (), add_grad h self ((if data (h ! out) > 0 then 1 else 0) * grad (h ! out)))"

section \<open>The backward pass\<close>

text \<open>
  \<open>node._prev\<close>. A reference of the program always points to a live object; an index
  outside the store has no counterpart in the program and is given no operands.
\<close>

definition children :: "heap \<Rightarrow> ref \<Rightarrow> ref list" where
  "children h node = (if node < length h then prev (h ! node) else [])"

text \<open>
  \<open>build_topo\<close> with its two captured variables \<open>visited\<close> and \<open>topo\<close> passed as state;
  \<open>for_child\<close> is its loop \<open>for child in node._prev\<close>. The interpreter's limit on the
  depth of recursion is not modelled.
\<close>

function build_topo :: "heap \<Rightarrow> ref \<Rightarrow> ref set \<times> ref list \<Rightarrow> ref set \<times> ref list"
  and for_child :: "heap \<Rightarrow> ref list \<Rightarrow> ref set \<times> ref list \<Rightarrow> ref set \<times> ref list"
where
  "build_topo h node (visited, topo) =
     (if node \<notin> visited then
        (let (visited', topo') = for_child h (children h node) (insert node visited, topo)
         in (visited', topo' @ [node]))
      else (visited, topo))"
| "for_child h [] st = st"
| "for_child h (child # rest) st = for_child h rest (build_topo h child st)"
  by pat_completeness auto


text \<open>The list \<open>topo\<close> after \<open>build_topo(self)\<close>, from empty \<open>topo\<close> and \<open>visited\<close>.\<close>

definition topo_of :: "heap \<Rightarrow> ref \<Rightarrow> ref list" where
  "topo_of h self = snd (build_topo h self ({}, []))"

text \<open>
  \<open>for node in reversed(topo): node._backward()\<close>. An exception ends the loop and leaves
  the store as it is at that moment.
\<close>

fun for_node :: "ref list \<Rightarrow> heap \<Rightarrow> unit result \<times> heap" where
  "for_node [] h = (Return (), h)"
| "for_node (node # rest) h =
     (case call (backward_fn (h ! node)) h of
        (Return _, h') \<Rightarrow> for_node rest h'
      | (Raise e, h') \<Rightarrow> (Raise e, h'))"

text \<open>\<open>self.grad = 1\<close>\<close>

definition seed :: "heap \<Rightarrow> ref \<Rightarrow> heap" where
  "seed h self = h[self := (h ! self)\<lparr>grad := 1\<rparr>]"

definition backward :: "heap \<Rightarrow> ref \<Rightarrow> unit result \<times> heap" where
  "backward h self = for_node (rev (topo_of h self)) (seed h self)"

section \<open>Auxiliary notions\<close>

text \<open>The store with every gradient blanked out: what a pass over the graph may not change.\<close>

definition skeleton :: "heap \<Rightarrow> heap" where
  "skeleton h = map (\<lambda>n. n\<lparr>grad := 0\<rparr>) h"

text \<open>
  \<open>later h H\<close>: the store \<open>H\<close> is a state that the store \<open>h\<close> can reach. The objects
  of \<open>h\<close> are in \<open>H\<close> with every field but \<open>grad\<close> as in \<open>h\<close>; further objects may have
  been made.
\<close>

definition later :: "heap \<Rightarrow> heap \<Rightarrow> bool" where
  "later h H = (length h \<le> length H \<and> skeleton (take (length h) H) = skeleton h)"

text \<open>
  What a local backward rule does, said without the code: \<open>contribution a x b y\<close> is
  \<open>x\<close> for the object \<open>a\<close> plus \<open>y\<close> for the object \<open>b\<close> (both when they are the same
  object) and nothing for any other; \<open>adds_to_grads H out d\<close> holds when calling the
  \<open>_backward\<close> of \<open>out\<close> in the store \<open>H\<close> returns and adds \<open>d n\<close> to the gradient of
  every object \<open>n\<close>.
\<close>

definition contribution :: "ref \<Rightarrow> real \<Rightarrow> ref \<Rightarrow> real \<Rightarrow> ref \<Rightarrow> real" where
  "contribution a x b y n = (if n = a then x else 0) + (if n = b then y else 0)"

definition adds_to_grads :: "heap \<Rightarrow> ref \<Rightarrow> (ref \<Rightarrow> real) \<Rightarrow> bool" where
  "adds_to_grads H out d =
     (case call (backward_fn (H ! out)) H of
        (r, H') \<Rightarrow> r = Return () \<and> length H' = length H
                 \<and> list_all (\<lambda>n. grad (H' ! n) = grad (H ! n) + d n) [0..<length H])"

text \<open>The program \<open>Scalar(x); Scalar(y)\<close> run in the empty store.\<close>

definition two_leaves :: "real \<Rightarrow> real \<Rightarrow> heap" where
  "two_leaves x y = snd (leaf (snd (leaf [] x)) y)"

text \<open>
  The operand relation: an edge from an object to each element of its \<open>_prev\<close>; and the
  objects reachable from \<open>t\<close> along it, \<open>t\<close> included.
\<close>

definition operands :: "heap \<Rightarrow> (ref \<times> ref) set" where
  "operands h = {(n, c). c \<in> set (children h n)}"

definition reachable :: "heap \<Rightarrow> ref \<Rightarrow> ref set" where
  "reachable h t = (operands h)\<^sup>* `` {t}"


text \<open>
  The sequence of objects whose \<open>_backward\<close> the loop of \<open>backward()\<close> calls, in the order
  of the calls: the instrumented loop. A call that raises is the last one.
\<close>

fun called :: "ref list \<Rightarrow> heap \<Rightarrow> ref list" where
  "called [] h = []"
| "called (node # rest) h =
     node # (case call (backward_fn (h ! node)) h of
               (Return _, h') \<Rightarrow> called rest h'
             | (Raise e, h') \<Rightarrow> [])"

text \<open>
  The stores that the program can build. An object's operands were made before it (they
  have smaller indices), \<open>_prev\<close> has no repetition, and \<open>_backward\<close> is the closure that
  the operator which made the object attached: it captured the object itself as \<open>out\<close>
  and the elements of \<open>_prev\<close> as \<open>self\<close> and \<open>_other\<close>; an object that the constructor
  alone made has the default closure; the divisor of a division is not zero, since
  \<open>__truediv__\<close> raises otherwise and \<open>data\<close> is never written again.
\<close>

fun closure_ok :: "heap \<Rightarrow> ref \<Rightarrow> ref list \<Rightarrow> closure \<Rightarrow> bool" where
  "closure_ok h n ps NoOp = True"
| "closure_ok h n ps (AddBackward a b out) = (out = n \<and> set ps = {a, b})"
| "closure_ok h n ps (SubBackward a b out) = (out = n \<and> set ps = {a, b})"
| "closure_ok h n ps (MulBackward a b out) = (out = n \<and> set ps = {a, b})"
| "closure_ok h n ps (DivBackward a b out) = (out = n \<and> set ps = {a, b} \<and> data (h ! b) \<noteq> 0)"
| "closure_ok h n ps (ReluBackward a out) = (out = n \<and> ps = [a])"

definition node_ok :: "heap \<Rightarrow> ref \<Rightarrow> bool" where
  "node_ok h n =
     (distinct (prev (h ! n)) \<and> list_all (\<lambda>c. c < n) (prev (h ! n))
      \<and> closure_ok h n (prev (h ! n)) (backward_fn (h ! n)))"

definition graph_ok :: "heap \<Rightarrow> bool" where
  "graph_ok h = list_all (node_ok h) [0..<length h]"

text \<open>Auxiliary: operands have smaller indices; a list in which operands come first.\<close>

definition descending :: "heap \<Rightarrow> bool" where
  "descending h = (\<forall>n. \<forall>c \<in> set (children h n). c < n)"

definition operands_first :: "heap \<Rightarrow> ref list \<Rightarrow> bool" where
  "operands_first h T =
     (distinct T \<and> (\<forall>xs n ys. T = xs @ n # ys \<longrightarrow> set (children h n) \<subseteq> set xs))"

text \<open>
  The program \<open>x = Scalar(2); b = x * x; c = b + x; d = c.relu()\<close> run in the empty store:
  a chain of depth three in which \<open>x\<close> is shared.
\<close>

definition diamond_chain :: heap where
  "diamond_chain =
     (case leaf [] 2 of (x, h1) \<Rightarrow>
      case mul False h1 x (Node x) of (b, h2) \<Rightarrow>
      case add True h2 1 (Node x) of (c, h3) \<Rightarrow>
      case relu h3 2 of (d, h4) \<Rightarrow> h4)"

text \<open>
  The program \<open>a = Scalar(2); m = a * 3.0; t = m * 5.0\<close> run in the empty store: the
  objects are \<open>a\<close>, the lifted 3.0, \<open>m\<close>, the lifted 5.0 and \<open>t\<close>.
\<close>

definition chain :: heap where
  "chain =
     (case leaf [] 2 of (a, h1) \<Rightarrow>
      case mul False h1 a (PyFloat 3) of (m, h2) \<Rightarrow>
      case mul False h2 2 (PyFloat 5) of (t, h3) \<Rightarrow> h3)"

text \<open>
  The program \<open>a = Scalar(2); b = Scalar(3); c = Scalar(7); m = a * b; t = m + c\<close> run in
  the empty store.
\<close>

definition sum_of_product :: heap where
  "sum_of_product =
     (case leaf [] 2 of (a, h1) \<Rightarrow>
      case leaf h1 3 of (b, h2) \<Rightarrow>
      case leaf h2 7 of (c, h3) \<Rightarrow>
      case mul False h3 a (Node b) of (m, h4) \<Rightarrow>
      case add False h4 3 (Node c) of (t, h5) \<Rightarrow> h5)"

section \<open>Termination of the traversal\<close>

lemma build_topo_visited_mono:
  "build_topo_for_child_dom (Inl (h, node, st)) \<Longrightarrow> fst st \<subseteq> fst (build_topo h node st)"
  "build_topo_for_child_dom (Inr (h, cs, st)) \<Longrightarrow> fst st \<subseteq> fst (for_child h cs st)"
proof (induction h node st and h cs st rule: build_topo_for_child.pinduct)
  case (1 h node visited topo)
  then show ?case
    by (auto simp: build_topo.psimps split: prod.splits)
next
  case (2 h st)
  then show ?case by (simp add: for_child.psimps)
next
  case (3 h child rest st)
  then show ?case by (auto simp: for_child.psimps)
qed

text \<open>
  Termination: every call of \<open>build_topo\<close> on an unvisited object of the store marks it
  visited, and the visited set never shrinks.
\<close>

termination build_topo
proof (relation "inv_image (less_than <*lex*> less_than)
     (\<lambda>x. case x of
        Inl (h, node, (v, t)) \<Rightarrow> (card ({..<length h} - v), 1)
      | Inr (h, cs, (v, t)) \<Rightarrow> (card ({..<length h} - v), 2 * length cs))", goal_cases)
  case 1
  show ?case by (intro wf_inv_image wf_lex_prod wf_less_than)
next
  case (2 h node visited topo)
  show ?case
  proof (cases "node < length h")
    case True
    with 2 have "{..<length h} - insert node visited \<subset> {..<length h} - visited"
      by auto
    then have "card ({..<length h} - insert node visited) < card ({..<length h} - visited)"
      by (intro psubset_card_mono) auto
    then show ?thesis by simp
  next
    case False
    then have "{..<length h} - insert node visited = {..<length h} - visited"
      by auto
    with False show ?thesis by (simp add: children_def)
  qed
next
  case (3 h child rest st)
  show ?case by (cases st) simp
next
  case (4 h child rest st)
  obtain v t where st: "st = (v, t)" by (cases st)
  obtain v' t' where st': "build_topo h child st = (v', t')" by (cases "build_topo h child st")
  from build_topo_visited_mono(1)[OF 4] st st' have "v \<subseteq> v'" by simp
  then have "card ({..<length h} - v') \<le> card ({..<length h} - v)"
    by (intro card_mono) auto
  moreover from st st' have "build_topo h child (v, t) = (v', t')" by simp
  ultimately show ?case by (auto simp: st)
qed

declare build_topo.simps [simp del]

section \<open>Only gradients are written\<close>

lemma skeleton_update_grad:
  "skeleton (h[r := (h ! r)\<lparr>grad := x\<rparr>]) = skeleton h"
  by (cases "r < length h") (simp_all add: skeleton_def list_eq_iff_nth_eq nth_list_update)

lemma skeleton_add_grad [simp]: "skeleton (add_grad h r x) = skeleton h"
  by (simp add: add_grad_def skeleton_update_grad)

lemma skeleton_sub_grad [simp]: "skeleton (sub_grad h r x) = skeleton h"
  by (simp add: sub_grad_def skeleton_update_grad)

lemma skeleton_seed [simp]: "skeleton (seed h r) = skeleton h"
  by (simp add: seed_def skeleton_update_grad)

lemma skeleton_call [simp]: "skeleton (snd (call c h)) = skeleton h"
  by (cases c) (simp_all add: Let_def)

lemma skeleton_for_node [simp]: "skeleton (snd (for_node ns h)) = skeleton h"
proof (induction ns arbitrary: h)
  case Nil
  show ?case by simp
next
  case (Cons n ns)
  obtain r h' where c: "call (backward_fn (h ! n)) h = (r, h')"
    by (cases "call (backward_fn (h ! n)) h")
  have "skeleton h' = skeleton h"
    using skeleton_call [of "backward_fn (h ! n)" h] c by simp
  with Cons.IH [of h'] c show ?case
    by (cases r) simp_all
qed

lemma skeleton_backward [simp]: "skeleton (snd (backward h t)) = skeleton h"
  by (simp add: backward_def)

lemma skeleton_length: "skeleton h' = skeleton h \<Longrightarrow> length h' = length h"
  unfolding skeleton_def by (rule map_eq_imp_length_eq)

lemma skeleton_fields:
  assumes "skeleton h' = skeleton h"
  shows "map data h' = map data h" and "map prev h' = map prev h"
    and "map backward_fn h' = map backward_fn h" and "map op h' = map op h"
proof -
  have "map data (skeleton h') = map data (skeleton h)"
    "map prev (skeleton h') = map prev (skeleton h)"
    "map backward_fn (skeleton h') = map backward_fn (skeleton h)"
    "map op (skeleton h') = map op (skeleton h)"
    using assms by simp_all
  then show "map data h' = map data h" and "map prev h' = map prev h"
    and "map backward_fn h' = map backward_fn h" and "map op h' = map op h"
    by (simp_all add: skeleton_def comp_def)
qed

text \<open>Construction appends to the store and leaves every object already there as it is.\<close>

lemma leaf_extends: "take (length h) (snd (leaf h x)) = h"
  by (simp add: leaf_def Scalar_def)

lemma add_extends: "take (length h) (snd (add f h a v)) = h"
  by (cases v) (simp_all add: add_def leaf_def Scalar_def set_backward_def)

lemma sub_extends: "take (length h) (snd (sub f h a v)) = h"
  by (cases v) (simp_all add: sub_def leaf_def Scalar_def set_backward_def)

lemma mul_extends: "take (length h) (snd (mul f h a v)) = h"
  by (cases v) (simp_all add: mul_def leaf_def Scalar_def set_backward_def)

lemma truediv_extends: "take (length h) (snd (truediv f h a v)) = h"
  by (cases v) (simp_all add: truediv_def leaf_def Scalar_def set_backward_def)

lemma relu_extends: "take (length h) (snd (relu h a)) = h"
  by (simp add: relu_def Scalar_def set_backward_def)

lemma rsub_extends: "take (length h) (snd (rsub f h a v)) = h"
  by (cases v) (simp_all add: rsub_def sub_def leaf_def Scalar_def set_backward_def)

lemma rtruediv_extends: "take (length h) (snd (rtruediv f h a v)) = h"
  by (cases v) (simp_all add: rtruediv_def truediv_def leaf_def Scalar_def set_backward_def)

text \<open>
  C9. The \<open>data\<close> of an object never changes after the object is made. Every constructor
  and operator (\<open>Scalar(x)\<close>, add, subtract, multiply, divide, relu and the four reflected
  forms), whatever its right-hand argument is and whether it returns or raises, leaves the
  \<open>data\<close> of all objects that were in the store before the call as they were; and
  \<open>backward()\<close>, whether it returns or raises, changes no \<open>data\<close> and indeed nothing but
  \<open>grad\<close> fields: the store with the gradients blanked out is the same before and after.
\<close>

theorem value_never_mutated:
  "map data (take (length h) (snd (leaf h x))) = map data h
   \<and> map data (take (length h) (snd (add f h a v))) = map data h
   \<and> map data (take (length h) (snd (sub f h a v))) = map data h
   \<and> map data (take (length h) (snd (mul f h a v))) = map data h
   \<and> map data (take (length h) (snd (truediv f h a v))) = map data h
   \<and> map data (take (length h) (snd (relu h a))) = map data h
   \<and> map data (take (length h) (snd (radd f h a v))) = map data h
   \<and> map data (take (length h) (snd (rsub f h a v))) = map data h
   \<and> map data (take (length h) (snd (rmul f h a v))) = map data h
   \<and> map data (take (length h) (snd (rtruediv f h a v))) = map data h
   \<and> map data (snd (backward h t)) = map data h
   \<and> skeleton (snd (backward h t)) = skeleton h"
  by (simp only: leaf_extends add_extends sub_extends mul_extends truediv_extends relu_extends
      rsub_extends rtruediv_extends radd_def rmul_def skeleton_fields(1) [OF skeleton_backward]
      skeleton_backward simp_thms)

section \<open>What the operators build and what their rules add\<close>

lemma later_refl: "later h h"
  by (simp add: later_def)

lemma later_nth:
  assumes "later h H" "n < length h"
  shows "data (H ! n) = data (h ! n)" "prev (H ! n) = prev (h ! n)"
    "backward_fn (H ! n) = backward_fn (h ! n)" "op (H ! n) = op (h ! n)"
proof -
  from assms have len: "n < length H" and sk: "skeleton (take (length h) H) = skeleton h"
    by (simp_all add: later_def)
  have "map data (take (length h) H) ! n = map data h ! n"
    "map prev (take (length h) H) ! n = map prev h ! n"
    "map backward_fn (take (length h) H) ! n = map backward_fn h ! n"
    "map op (take (length h) H) ! n = map op h ! n"
    using skeleton_fields [OF sk] by simp_all
  with assms(2) len show "data (H ! n) = data (h ! n)" "prev (H ! n) = prev (h ! n)"
    "backward_fn (H ! n) = backward_fn (h ! n)" "op (H ! n) = op (h ! n)"
    by simp_all
qed

lemma adds_to_gradsI:
  assumes "call (backward_fn (H ! out)) H = (Return (), H')" "length H' = length H"
    "\<And>n. n < length H \<Longrightarrow> grad (H' ! n) = grad (H ! n) + d n"
  shows "adds_to_grads H out d"
  using assms by (simp add: adds_to_grads_def list_all_iff)

lemma nth_add_grad:
  "n < length h \<Longrightarrow> grad (add_grad h r x ! n) = grad (h ! n) + (if n = r then x else 0)"
  by (simp add: add_grad_def nth_list_update)

lemma nth_sub_grad:
  "n < length h \<Longrightarrow> grad (sub_grad h r x ! n) = grad (h ! n) - (if n = r then x else 0)"
  by (simp add: sub_grad_def nth_list_update)

lemma data_add_grad [simp]: "data (add_grad h r x ! n) = data (h ! n)"
  by (cases "r < length h") (simp_all add: add_grad_def nth_list_update not_less list_update_beyond)

lemma data_sub_grad [simp]: "data (sub_grad h r x ! n) = data (h ! n)"
  by (cases "r < length h") (simp_all add: sub_grad_def nth_list_update not_less list_update_beyond)

lemma length_add_grad [simp]: "length (add_grad h r x) = length h"
  by (simp add: add_grad_def)

lemma length_sub_grad [simp]: "length (sub_grad h r x) = length h"
  by (simp add: sub_grad_def)

lemma call_Add:
  assumes "out < length H" "out \<noteq> a" "out \<noteq> b" "backward_fn (H ! out) = AddBackward a b out"
  shows "adds_to_grads H out (contribution a (grad (H ! out)) b (grad (H ! out)))"
  using assms by (intro adds_to_gradsI [where H' = "snd (call (AddBackward a b out) H)"])
    (simp_all add: Let_def nth_add_grad contribution_def)

lemma call_Sub:
  assumes "out < length H" "out \<noteq> a" "out \<noteq> b" "backward_fn (H ! out) = SubBackward a b out"
  shows "adds_to_grads H out (contribution a (grad (H ! out)) b (- grad (H ! out)))"
  using assms by (intro adds_to_gradsI [where H' = "snd (call (SubBackward a b out) H)"])
    (simp_all add: Let_def nth_add_grad nth_sub_grad contribution_def)


lemma call_Div:
  assumes "out < length H" "out \<noteq> a" "out \<noteq> b" "backward_fn (H ! out) = DivBackward a b out"
    "data (H ! b) \<noteq> 0"
  shows "adds_to_grads H out
    (contribution a (grad (H ! out) / data (H ! b))
                  b (grad (H ! out) * (- data (H ! a) / (data (H ! b))\<^sup>2)))"
  using assms by (intro adds_to_gradsI [where H' = "snd (call (DivBackward a b out) H)"])
    (simp_all add: Let_def nth_add_grad contribution_def power2_eq_square)


lemmas run_defs = leaf_def Scalar_def set_of_def set_backward_def add_def sub_def mul_def
  truediv_def relu_def radd_def rmul_def rsub_def rtruediv_def backward_def topo_of_def
  build_topo.simps children_def seed_def add_grad_def sub_grad_def Let_def

lemma add_Node:
  "add f h a (Node b) = (Return (length h),
     h @ [\<lparr>data = data (h ! a) + data (h ! b), grad = 0,
            backward_fn = AddBackward a b (length h), prev = set_of f [a, b], op = ''+''\<rparr>])"
  by (simp add: add_def Scalar_def set_backward_def)

lemma sub_Node:
  "sub f h a (Node b) = (Return (length h),
     h @ [\<lparr>data = data (h ! a) - data (h ! b), grad = 0,
            backward_fn = SubBackward a b (length h), prev = set_of f [a, b], op = ''-''\<rparr>])"
  by (simp add: sub_def Scalar_def set_backward_def)

lemma mul_Node:
  "mul f h a (Node b) = (Return (length h),
     h @ [\<lparr>data = data (h ! a) * data (h ! b), grad = 0,
            backward_fn = MulBackward a b (length h), prev = set_of f [a, b], op = ''*''\<rparr>])"
  by (simp add: mul_def Scalar_def set_backward_def)

lemma truediv_Node:
  "truediv f h a (Node b) =
     (if data (h ! b) = 0 then (Raise ZeroDivisionError, h)
      else (Return (length h),
     h @ [\<lparr>data = data (h ! a) / data (h ! b), grad = 0,
            backward_fn = DivBackward a b (length h), prev = set_of f [a, b], op = ''/''\<rparr>]))"
  by (simp add: truediv_def Scalar_def set_backward_def)

lemma relu_eq:
  "relu h a = (Return (length h),
     h @ [\<lparr>data = max 0 (data (h ! a)), grad = 0,
            backward_fn = ReluBackward a (length h), prev = [a], op = ''ReLU''\<rparr>])"
  by (simp add: relu_def Scalar_def set_backward_def set_of_def max_def)

lemma leaf_eq:
  "leaf h x = (length h, h @ [\<lparr>data = x, grad = 0, backward_fn = NoOp, prev = [], op = []\<rparr>])"
  by (simp add: leaf_def Scalar_def set_of_def)

lemma op_PyFloat:
  "add f h a (PyFloat x) = add f (snd (leaf h x)) a (Node (length h))"
  "sub f h a (PyFloat x) = sub f (snd (leaf h x)) a (Node (length h))"
  "mul f h a (PyFloat x) = mul f (snd (leaf h x)) a (Node (length h))"
  "truediv f h a (PyFloat x) = truediv f (snd (leaf h x)) a (Node (length h))"
  "rsub f h a (PyFloat x) = sub f (snd (leaf h x)) (length h) (Node a)"
  "rtruediv f h a (PyFloat x) = truediv f (snd (leaf h x)) (length h) (Node a)"
  by (simp_all add: add_def sub_def mul_def truediv_def rsub_def rtruediv_def leaf_eq)

lemma later_snoc:
  assumes "later (h @ [nd]) H"
  shows "length h < length H" "backward_fn (H ! length h) = backward_fn nd"
    "data (H ! length h) = data nd"
    "\<And>n. n < length h \<Longrightarrow> data (H ! n) = data (h ! n)"
proof -
  show "length h < length H" using assms by (simp add: later_def)
  show "backward_fn (H ! length h) = backward_fn nd" "data (H ! length h) = data nd"
    using later_nth [OF assms, of "length h"] by simp_all
  show "\<And>n. n < length h \<Longrightarrow> data (H ! n) = data (h ! n)"
    using later_nth(1) [OF assms] by (simp add: nth_append)
qed

lemma add_rule:
  assumes "a < length h" "b < length h" "later (snd (add f h a (Node b))) H"
  shows "adds_to_grads H (length h) (contribution a (grad (H ! length h)) b (grad (H ! length h)))"
proof -
  note l = later_snoc [OF assms(3) [unfolded add_Node snd_conv]]
  show ?thesis using assms(1,2) l(1,2) by (intro call_Add) simp_all
qed

lemma sub_rule:
  assumes "a < length h" "b < length h" "later (snd (sub f h a (Node b))) H"
  shows "adds_to_grads H (length h) (contribution a (grad (H ! length h)) b (- grad (H ! length h)))"
proof -
  note l = later_snoc [OF assms(3) [unfolded sub_Node snd_conv]]
  show ?thesis using assms(1,2) l(1,2) by (intro call_Sub) simp_all
qed


lemma truediv_rule:
  assumes "a < length h" "b < length h" "data (h ! b) \<noteq> 0"
    "later (snd (truediv f h a (Node b))) H"
  shows "adds_to_grads H (length h)
    (contribution a (grad (H ! length h) / data (h ! b))
                  b (grad (H ! length h) * (- data (h ! a) / (data (h ! b))\<^sup>2)))"
proof -
  from assms(3,4) have "later (h @ [\<lparr>data = data (h ! a) / data (h ! b), grad = 0,
            backward_fn = DivBackward a b (length h), prev = set_of f [a, b], op = ''/''\<rparr>]) H"
    by (simp add: truediv_Node)
  note l = later_snoc [OF this]
  have "adds_to_grads H (length h)
    (contribution a (grad (H ! length h) / data (H ! b))
                  b (grad (H ! length h) * (- data (H ! a) / (data (H ! b))\<^sup>2)))"
    using assms(1,2,3) l(1,2) l(4) [of b] by (intro call_Div) simp_all
  then show ?thesis using l(4) assms(1,2) by simp
qed



lemma contribution_same: "contribution a x a y = (\<lambda>n. if n = a then x + y else 0)"
  by (auto simp: contribution_def fun_eq_iff)



text \<open>
  C4. Contributions are summed, not overwritten. When one object is both operands of an
  addition, the rule of the sum adds the gradient of the sum to it twice. The program
  \<open>a = Scalar(3); b = a + a; b.backward()\<close> ends with \<open>a.grad = 2\<close>. With two consumers,
  \<open>a = Scalar(3); u = a * 2.0; v = a * 5.0; t = u + v; t.backward()\<close> ends with
  \<open>a.grad = 7\<close>, the sum of what \<open>u\<close> and \<open>v\<close> pass down.
\<close>

theorem gradients_accumulate:
  assumes "a < length h"
  shows
   "(\<exists>h'. add f h a (Node a) = (Return (length h), h')
        \<and> (\<forall>H. later h' H \<longrightarrow> adds_to_grads H (length h)
              (\<lambda>n. if n = a then grad (H ! length h) + grad (H ! length h) else 0)))
  \<and> (case leaf [] 3 of (x, h1) \<Rightarrow> case add f h1 x (Node x) of (y, h2) \<Rightarrow>
      case backward h2 1 of (r, h3) \<Rightarrow>
        y = Return 1 \<and> r = Return () \<and> grad (h3 ! x) = 2)
  \<and> (case leaf [] 3 of (x, h1) \<Rightarrow> case mul f h1 x (PyFloat 2) of (u, h2) \<Rightarrow>
      case mul g h2 x (PyFloat 5) of (v, h3) \<Rightarrow> case add k h3 2 (Node 4) of (t, h4) \<Rightarrow>
      case backward h4 5 of (r, h5) \<Rightarrow>
        u = Return 2 \<and> v = Return 4 \<and> t = Return 5 \<and> r = Return () \<and> grad (h5 ! x) = 7)"
proof (intro conjI)
  show "\<exists>h'. add f h a (Node a) = (Return (length h), h')
        \<and> (\<forall>H. later h' H \<longrightarrow> adds_to_grads H (length h)
              (\<lambda>n. if n = a then grad (H ! length h) + grad (H ! length h) else 0))"
    using add_rule [OF assms assms, of f] by (simp add: add_Node contribution_same)
  show "case leaf [] 3 of (x, h1) \<Rightarrow> case add f h1 x (Node x) of (y, h2) \<Rightarrow>
      case backward h2 1 of (r, h3) \<Rightarrow>
        y = Return 1 \<and> r = Return () \<and> grad (h3 ! x) = 2"
    by (cases f) (simp_all add: run_defs)
  show "case leaf [] 3 of (x, h1) \<Rightarrow> case mul f h1 x (PyFloat 2) of (u, h2) \<Rightarrow>
      case mul g h2 x (PyFloat 5) of (v, h3) \<Rightarrow> case add k h3 2 (Node 4) of (t, h4) \<Rightarrow>
      case backward h4 5 of (r, h5) \<Rightarrow>
        u = Return 2 \<and> v = Return 4 \<and> t = Return 5 \<and> r = Return () \<and> grad (h5 ! x) = 7"
    by (cases f; cases g; cases k) (simp_all add: run_defs)
qed

theorem gradients_accumulate_witness:
  "0 < length (two_leaves 3 1)
   \<and> (\<exists>h'. add False (two_leaves 3 1) 0 (Node 0) = (Return 2, h')
        \<and> adds_to_grads h' 2 (\<lambda>n. if n = 0 then grad (h' ! 2) + grad (h' ! 2) else 0))"
proof -
  have l: "0 < length (two_leaves 3 1)" and n: "length (two_leaves 3 1) = 2"
    by (simp_all add: two_leaves_def leaf_eq)
  show ?thesis
    using gradients_accumulate [OF l, of False] l later_refl unfolding n by fastforce
qed



text \<open>
  C7. Division by an object whose value is 0 raises \<open>ZeroDivisionError\<close>; no infinity or
  NaN is produced. That holds for \<open>a / b\<close> with \<open>b\<close> an object of value 0, for \<open>a / 0.0\<close>
  (the float is lifted first), for the reflected \<open>a / b\<close> and \<open>r / b\<close>, and in the same way
  for the backward rule of a division whose divisor has value 0: the rule raises before
  it writes anything, and the loop of \<open>backward()\<close> passes the exception on.
\<close>

theorem division_by_zero_raises:
  assumes "b < length h" and "data (h ! b) = 0"
  shows
   "truediv f h a (Node b) = (Raise ZeroDivisionError, h)
  \<and> truediv f h a (PyFloat 0) = (Raise ZeroDivisionError, snd (leaf h 0))
  \<and> rtruediv f h b (Node a) = (Raise ZeroDivisionError, h)
  \<and> rtruediv f h b (PyFloat r) = (Raise ZeroDivisionError, snd (leaf h r))
  \<and> call (DivBackward a b out) h = (Raise ZeroDivisionError, h)
  \<and> (backward_fn (h ! out) = DivBackward a b out \<longrightarrow>
       for_node (out # rest) h = (Raise ZeroDivisionError, h))"
  using assms
  by (simp add: truediv_Node op_PyFloat leaf_eq rtruediv_def nth_append)

theorem division_by_zero_raises_witness:
  "1 < length (two_leaves 1 0) \<and> data (two_leaves 1 0 ! 1) = 0
   \<and> truediv True (two_leaves 1 0) 0 (Node 1) = (Raise ZeroDivisionError, two_leaves 1 0)
   \<and> fst (rtruediv True (two_leaves 1 0) 1 (PyFloat 7)) = Raise ZeroDivisionError
   \<and> call (DivBackward 0 1 2) (two_leaves 1 0) = (Raise ZeroDivisionError, two_leaves 1 0)"
proof -
  have l: "1 < length (two_leaves 1 0)" and d: "data (two_leaves 1 0 ! 1) = 0"
    by (simp_all add: two_leaves_def leaf_eq)
  show ?thesis
    using division_by_zero_raises [OF l d, of True 0 7 2] l d by simp
qed



text \<open>
  C5, as stated, fails for a node of value 0 under the reflected divide, which raises
  \<open>ZeroDivisionError\<close> and returns no node, and for an int on the left, which is not
  lifted.
\<close>

theorem reflected_counterexample:
  "fst (rtruediv False (snd (leaf [] 0)) 0 (PyFloat 1)) = Raise ZeroDivisionError
   \<and> fst (rsub False (snd (leaf [] 5)) 0 (PyInt 1)) = Raise TypeError"
  by (simp add: rsub_def op_PyFloat truediv_Node leaf_eq)

text \<open>
  C5, amended. For an object \<open>x\<close> of the store and a float \<open>r\<close>, \<open>r - x\<close> lifts \<open>r\<close> to a
  new leaf and returns a new object of value \<open>r - x.data\<close> whose rule adds \<open>g\<close> to the
  lifted leaf and \<open>-g\<close> to \<open>x\<close>; and when the value of \<open>x\<close> is not zero, \<open>r / x\<close> lifts
  \<open>r\<close> and returns a new object of value \<open>r / x.data\<close> whose rule adds \<open>g / x.data\<close> to the
  lifted leaf and \<open>g * (-r / x.data\<^sup>2)\<close> to \<open>x\<close>.
\<close>

theorem reflected_operand_order:
  assumes "x < length h"
  shows
   "(\<exists>h'. rsub f h x (PyFloat r) = (Return (Suc (length h)), h') \<and> take (length h) h' = h
        \<and> data (h' ! length h) = r \<and> prev (h' ! length h) = []
        \<and> backward_fn (h' ! length h) = NoOp
        \<and> data (h' ! Suc (length h)) = r - data (h ! x)
        \<and> (\<forall>H. later h' H \<longrightarrow> adds_to_grads H (Suc (length h))
              (contribution (length h) (grad (H ! Suc (length h)))
                            x (- grad (H ! Suc (length h))))))
  \<and> (data (h ! x) \<noteq> 0 \<longrightarrow>
      (\<exists>h'. rtruediv f h x (PyFloat r) = (Return (Suc (length h)), h') \<and> take (length h) h' = h
        \<and> data (h' ! length h) = r \<and> prev (h' ! length h) = []
        \<and> backward_fn (h' ! length h) = NoOp
        \<and> data (h' ! Suc (length h)) = r / data (h ! x)
        \<and> (\<forall>H. later h' H \<longrightarrow> adds_to_grads H (Suc (length h))
              (contribution (length h) (grad (H ! Suc (length h)) / data (h ! x))
                            x (grad (H ! Suc (length h)) * (- r / (data (h ! x))\<^sup>2))))))"
proof -
  define l where "l = \<lparr>data = r, grad = 0, backward_fn = NoOp, prev = [], op = []\<rparr>"
  define h1 where "h1 = h @ [l]"
  have h1: "snd (leaf h r) = h1" "length h1 = Suc (length h)" "length h < length h1"
    "x < length h1" "data (h1 ! x) = data (h ! x)" "data (h1 ! length h) = r"
    using assms by (simp_all add: h1_def l_def leaf_eq nth_append)
  have s: "rsub f h x (PyFloat r) = sub f h1 (length h) (Node x)"
    and t: "rtruediv f h x (PyFloat r) = truediv f h1 (length h) (Node x)"
    by (simp_all add: op_PyFloat h1)
  have "\<exists>h'. rsub f h x (PyFloat r) = (Return (Suc (length h)), h') \<and> take (length h) h' = h
        \<and> data (h' ! length h) = r \<and> prev (h' ! length h) = []
        \<and> backward_fn (h' ! length h) = NoOp
        \<and> data (h' ! Suc (length h)) = r - data (h ! x)
        \<and> (\<forall>H. later h' H \<longrightarrow> adds_to_grads H (Suc (length h))
              (contribution (length h) (grad (H ! Suc (length h)))
                            x (- grad (H ! Suc (length h)))))"
    using sub_rule [OF h1(3,4), of f] h1(2,5,6)
    by (simp add: s sub_Node) (simp add: h1_def l_def nth_append)
  moreover have "\<exists>h'. rtruediv f h x (PyFloat r) = (Return (Suc (length h)), h')
        \<and> take (length h) h' = h
        \<and> data (h' ! length h) = r \<and> prev (h' ! length h) = []
        \<and> backward_fn (h' ! length h) = NoOp
        \<and> data (h' ! Suc (length h)) = r / data (h ! x)
        \<and> (\<forall>H. later h' H \<longrightarrow> adds_to_grads H (Suc (length h))
              (contribution (length h) (grad (H ! Suc (length h)) / data (h ! x))
                            x (grad (H ! Suc (length h)) * (- r / (data (h ! x))\<^sup>2))))"
    if nz: "data (h ! x) \<noteq> 0"
  proof -
    from nz h1(5) have nz1: "data (h1 ! x) \<noteq> 0" by simp
    show ?thesis
      using truediv_rule [OF h1(3,4) nz1, of f] h1(2,5,6) nz
      by (simp add: t truediv_Node) (simp add: h1_def l_def nth_append)
  qed
  ultimately show ?thesis by blast
qed

theorem reflected_operand_order_witness:
  "0 < length (two_leaves 4 9) \<and> data (two_leaves 4 9 ! 0) \<noteq> 0
   \<and> (\<exists>h'. rsub True (two_leaves 4 9) 0 (PyFloat 1) = (Return 3, h') \<and> data (h' ! 3) = - 3)
   \<and> (\<exists>h'. rtruediv True (two_leaves 4 9) 0 (PyFloat 1) = (Return 3, h') \<and> data (h' ! 3) = 1 / 4)"
proof -
  have l: "0 < length (two_leaves 4 9)" and n: "length (two_leaves 4 9) = 2"
    and d: "data (two_leaves 4 9 ! 0) = 4"
    by (simp_all add: two_leaves_def leaf_eq)
  show ?thesis
    using reflected_operand_order [OF l, of True 1] l unfolding n d
    by (simp add: numeral_3_eq_3) blast
qed

section \<open>The traversal\<close>

lemma operands_first_Nil [simp]: "operands_first h []"
  by (simp add: operands_first_def)

lemma operands_first_snoc:
  assumes "operands_first h T" "n \<notin> set T" "set (children h n) \<subseteq> set T"
  shows "operands_first h (T @ [n])"
  unfolding operands_first_def
proof (intro conjI allI impI)
  show "distinct (T @ [n])" using assms by (simp add: operands_first_def)
next
  fix xs m ys
  assume eq: "T @ [n] = xs @ m # ys"
  show "set (children h m) \<subseteq> set xs"
  proof (cases ys rule: rev_cases)
    case Nil
    with eq have "xs = T" "m = n" by simp_all
    with assms(3) show ?thesis by simp
  next
    case (snoc ys' y)
    with eq have "T = xs @ m # ys'" by simp
    with assms(1) show ?thesis unfolding operands_first_def by blast
  qed
qed

lemma operands_first_closed:
  assumes "operands_first h T" "n \<in> set T"
  shows "set (children h n) \<subseteq> set T"
proof -
  from assms(2) obtain xs ys where "T = xs @ n # ys" by (auto simp: in_set_conv_decomp)
  with assms(1) show ?thesis unfolding operands_first_def by fastforce
qed

lemma reachable_self: "t \<in> reachable h t"
  by (simp add: reachable_def)

lemma reachable_child:
  "c \<in> set (children h n) \<Longrightarrow> reachable h c \<subseteq> reachable h n"
  unfolding reachable_def operands_def
  by (auto intro: converse_rtrancl_into_rtrancl)

lemma reachable_closed:
  assumes "operands_first h T" "t \<in> set T"
  shows "reachable h t \<subseteq> set T"
proof
  fix n assume "n \<in> reachable h t"
  then have "(t, n) \<in> (operands h)\<^sup>*" by (simp add: reachable_def)
  then show "n \<in> set T"
  proof (induction rule: rtrancl_induct)
    case base
    show ?case by (rule assms(2))
  next
    case (step y z)
    then have "z \<in> set (children h y)" by (simp add: operands_def)
    with operands_first_closed [OF assms(1) step.IH] show ?case by blast
  qed
qed

lemma reachable_le:
  assumes "descending h" "n \<in> reachable h t"
  shows "n \<le> t"
proof -
  from assms(2) have "(t, n) \<in> (operands h)\<^sup>*" by (simp add: reachable_def)
  then show ?thesis
  proof (induction rule: rtrancl_induct)
    case base
    show ?case by simp
  next
    case (step y z)
    then have "z \<in> set (children h y)" by (simp add: operands_def)
    with assms(1) have "z < y" by (auto simp: descending_def)
    with step.IH show ?case by simp
  qed
qed

text \<open>The invariant of the traversal.\<close>

lemma build_topo_invariant:
  "descending h \<Longrightarrow> operands_first h (snd st) \<Longrightarrow> set (snd st) \<subseteq> fst st \<Longrightarrow>
   (\<forall>m \<le> node. m \<in> fst st \<longrightarrow> m \<in> set (snd st)) \<Longrightarrow>
   \<exists>new. snd (build_topo h node st) = snd st @ new
        \<and> fst (build_topo h node st) = fst st \<union> set new
        \<and> operands_first h (snd st @ new)
        \<and> set new \<subseteq> reachable h node
        \<and> node \<in> set (snd st @ new)"
  "descending h \<Longrightarrow> operands_first h (snd st) \<Longrightarrow> set (snd st) \<subseteq> fst st \<Longrightarrow>
   (\<forall>c \<in> set cs. \<forall>m \<le> c. m \<in> fst st \<longrightarrow> m \<in> set (snd st)) \<Longrightarrow>
   \<exists>new. snd (for_child h cs st) = snd st @ new
        \<and> fst (for_child h cs st) = fst st \<union> set new
        \<and> operands_first h (snd st @ new)
        \<and> set new \<subseteq> (\<Union>c \<in> set cs. reachable h c)
        \<and> set cs \<subseteq> set (snd st @ new)"
proof (induction h node st and h cs st rule: build_topo_for_child.induct)
  case (1 h node visited topo)
  show ?case
  proof (cases "node \<in> visited")
    case True
    with "1.prems"(4) have "node \<in> set topo" by simp
    with True "1.prems"(2) show ?thesis
      by (intro exI [of _ "[]"]) (simp add: build_topo.simps)
  next
    case False
    let ?st = "(insert node visited, topo)"
    have less: "\<And>c. c \<in> set (children h node) \<Longrightarrow> c < node"
      using "1.prems"(1) by (auto simp: descending_def)
    have p3: "set (snd ?st) \<subseteq> fst ?st" using "1.prems"(3) by auto
    have p4: "\<forall>c \<in> set (children h node). \<forall>m \<le> c. m \<in> fst ?st \<longrightarrow> m \<in> set (snd ?st)"
      using "1.prems"(4) less by fastforce
    from "1.IH" [OF False "1.prems"(1) _ p3 p4] "1.prems"(2)
    obtain new where new: "snd (for_child h (children h node) ?st) = topo @ new"
      "fst (for_child h (children h node) ?st) = insert node visited \<union> set new"
      "operands_first h (topo @ new)"
      "set new \<subseteq> (\<Union>c \<in> set (children h node). reachable h c)"
      "set (children h node) \<subseteq> set (topo @ new)"
      by auto
    have le: "\<And>x. x \<in> set new \<Longrightarrow> x < node"
    proof -
      fix x assume "x \<in> set new"
      with new(4) obtain c where c: "c \<in> set (children h node)" "x \<in> reachable h c" by auto
      from reachable_le [OF "1.prems"(1) c(2)] less [OF c(1)] show "x < node" by simp
    qed
    have notin: "node \<notin> set (topo @ new)"
      using False "1.prems"(3) le by auto
    have sub: "set new \<subseteq> reachable h node"
      using new(4) reachable_child [of _ h node] by blast
    have res: "build_topo h node (visited, topo)
        = (insert node visited \<union> set new, topo @ new @ [node])"
    proof -
      have "for_child h (children h node) ?st = (insert node visited \<union> set new, topo @ new)"
        using new(1,2) by (simp add: prod_eq_iff)
      with False show ?thesis by (simp add: build_topo.simps)
    qed
    show ?thesis
      using operands_first_snoc [OF new(3) notin new(5)] sub reachable_self [of node h]
      by (intro exI [of _ "new @ [node]"]) (simp add: res)
  qed
next
  case (2 h st)
  then show ?case by simp
next
  case (3 h child rest st)
  have p4: "\<forall>m \<le> child. m \<in> fst st \<longrightarrow> m \<in> set (snd st)"
    using "3.prems"(4) by simp
  from "3.IH"(1) [OF "3.prems"(1,2,3) p4]
  obtain new1 where n1: "snd (build_topo h child st) = snd st @ new1"
    "fst (build_topo h child st) = fst st \<union> set new1"
    "operands_first h (snd st @ new1)"
    "set new1 \<subseteq> reachable h child"
    "child \<in> set (snd st @ new1)"
    by auto
  let ?st1 = "build_topo h child st"
  have q2: "operands_first h (snd ?st1)" using n1(1,3) by simp
  have q3: "set (snd ?st1) \<subseteq> fst ?st1" using n1(1,2) "3.prems"(3) by auto
  have q4: "\<forall>c \<in> set rest. \<forall>m \<le> c. m \<in> fst ?st1 \<longrightarrow> m \<in> set (snd ?st1)"
    using n1(1,2) "3.prems"(4) by auto
  from "3.IH"(2) [OF "3.prems"(1) q2 q3 q4]
  obtain new2 where n2: "snd (for_child h rest ?st1) = snd ?st1 @ new2"
    "fst (for_child h rest ?st1) = fst ?st1 \<union> set new2"
    "operands_first h (snd ?st1 @ new2)"
    "set new2 \<subseteq> (\<Union>c \<in> set rest. reachable h c)"
    "set rest \<subseteq> set (snd ?st1 @ new2)"
    by auto
  show ?case
    using n1 n2 by (intro exI [of _ "new1 @ new2"]) auto
qed

lemma graph_ok_iff: "graph_ok h \<longleftrightarrow> (\<forall>n < length h. node_ok h n)"
  by (auto simp: graph_ok_def list_all_iff)

lemma graph_ok_descending: "graph_ok h \<Longrightarrow> descending h"
  by (auto simp: graph_ok_iff descending_def children_def node_ok_def list_all_iff)

lemma skeleton_nth:
  assumes "skeleton H = skeleton h" "n < length h"
  shows "data (H ! n) = data (h ! n)" "prev (H ! n) = prev (h ! n)"
    "backward_fn (H ! n) = backward_fn (h ! n)"
proof -
  have len: "length H = length h" by (rule skeleton_length [OF assms(1)])
  have "map data H ! n = map data h ! n" "map prev H ! n = map prev h ! n"
    "map backward_fn H ! n = map backward_fn h ! n"
    using skeleton_fields [OF assms(1)] by simp_all
  with assms(2) len show "data (H ! n) = data (h ! n)" "prev (H ! n) = prev (h ! n)"
    "backward_fn (H ! n) = backward_fn (h ! n)"
    by simp_all
qed

lemma skeleton_children:
  assumes "skeleton H = skeleton h"
  shows "children H = children h"
proof (rule ext)
  fix n
  show "children H n = children h n"
    using skeleton_nth(2) [OF assms, of n] skeleton_length [OF assms]
    by (simp add: children_def)
qed

lemma closure_ok_data:
  assumes "\<And>b. b \<in> set ps \<Longrightarrow> data (H ! b) = data (h ! b)"
  shows "closure_ok H n ps c = closure_ok h n ps c"
  using assms by (cases c) auto

lemma skeleton_node_ok:
  assumes "skeleton H = skeleton h" "n < length h" "node_ok h n"
  shows "node_ok H n"
proof -
  note f = skeleton_nth [OF assms(1)]
  from assms(3) have lt: "\<And>b. b \<in> set (prev (h ! n)) \<Longrightarrow> b < length h"
    using assms(2) by (fastforce simp: node_ok_def list_all_iff)
  have "closure_ok H n (prev (h ! n)) (backward_fn (h ! n))
      = closure_ok h n (prev (h ! n)) (backward_fn (h ! n))"
    by (rule closure_ok_data) (simp add: f(1) lt)
  with assms(2,3) show ?thesis by (simp add: node_ok_def f)
qed

lemma skeleton_graph_ok:
  assumes "skeleton H = skeleton h" "graph_ok h"
  shows "graph_ok H"
  using assms skeleton_node_ok [OF assms(1)] skeleton_length [OF assms(1)]
  by (simp add: graph_ok_iff)

lemma build_topo_children_cong:
  "children h = children k \<Longrightarrow> build_topo h node st = build_topo k node st"
  "children h = children k \<Longrightarrow> for_child h cs st = for_child k cs st"
proof (induction h node st and h cs st rule: build_topo_for_child.induct)
  case (1 h node visited topo)
  then show ?case by (simp add: build_topo.simps)
next
  case (2 h st)
  show ?case by simp
next
  case (3 h child rest st)
  then show ?case by simp
qed

lemma skeleton_topo_of:
  "skeleton H = skeleton h \<Longrightarrow> topo_of H t = topo_of h t"
  using build_topo_children_cong(1) [OF skeleton_children, of H h t "({}, [])"]
  by (simp add: topo_of_def)

text \<open>What the traversal returns on a well-built store.\<close>

lemma topo_of_last: "topo_of h t = snd (for_child h (children h t) ({t}, [])) @ [t]"
  by (simp add: topo_of_def build_topo.simps split: prod.splits)

lemma topo_of_ordered:
  assumes "descending h"
  shows "operands_first h (topo_of h t)" "set (topo_of h t) = reachable h t"
    "fst (build_topo h t ({}, [])) = reachable h t"
proof -
  from build_topo_invariant(1) [of h "({}, [])" t] assms
  obtain new where new: "snd (build_topo h t ({}, [])) = new"
    "fst (build_topo h t ({}, [])) = set new"
    "operands_first h new" "set new \<subseteq> reachable h t" "t \<in> set new"
    by auto
  from reachable_closed [OF new(3,5)] new(4) have eq: "set new = reachable h t" by auto
  show "operands_first h (topo_of h t)" "set (topo_of h t) = reachable h t"
    "fst (build_topo h t ({}, [])) = reachable h t"
    using new eq by (simp_all add: topo_of_def)
qed



text \<open>On a well-built store no rule raises, and a rule writes to its operands only.\<close>

lemma grad_add_grad_other: "m \<noteq> r \<Longrightarrow> grad (add_grad h r x ! m) = grad (h ! m)"
  by (simp add: add_grad_def)

lemma grad_sub_grad_other: "m \<noteq> r \<Longrightarrow> grad (sub_grad h r x ! m) = grad (h ! m)"
  by (simp add: sub_grad_def)

lemma call_frame:
  assumes "closure_ok h n ps c" "m \<notin> set ps"
  shows "grad (snd (call c H) ! m) = grad (H ! m)"
  using assms
  by (cases c) (auto simp: Let_def grad_add_grad_other grad_sub_grad_other)

lemma call_returns:
  assumes "closure_ok H n ps c"
  shows "fst (call c H) = Return ()"
  using assms by (cases c) (simp_all add: Let_def)

lemma node_call:
  assumes "graph_ok H" "n < length H"
  shows "fst (call (backward_fn (H ! n)) H) = Return ()"
    and "m \<notin> set (children H n) \<Longrightarrow> grad (snd (call (backward_fn (H ! n)) H) ! m) = grad (H ! m)"
proof -
  from assms have ok: "closure_ok H n (prev (H ! n)) (backward_fn (H ! n))"
    by (simp add: graph_ok_iff node_ok_def)
  show "fst (call (backward_fn (H ! n)) H) = Return ()"
    by (rule call_returns [OF ok])
  show "grad (snd (call (backward_fn (H ! n)) H) ! m) = grad (H ! m)"
    if "m \<notin> set (children H n)"
    using call_frame [OF ok, of m H] that assms(2) by (simp add: children_def)
qed

lemma for_node_frame:
  assumes "graph_ok H" "\<forall>n \<in> set ns. n < length H"
  shows "fst (for_node ns H) = Return () \<and> called ns H = ns
    \<and> ((\<forall>n \<in> set ns. m \<notin> set (children H n)) \<longrightarrow>
         grad (snd (for_node ns H) ! m) = grad (H ! m))"
  using assms
proof (induction ns arbitrary: H)
  case Nil
  show ?case by simp
next
  case (Cons n ns)
  define H' where "H' = snd (call (backward_fn (H ! n)) H)"
  from Cons.prems have n: "n < length H" by simp
  have c: "call (backward_fn (H ! n)) H = (Return (), H')"
    using node_call(1) [OF Cons.prems(1) n] by (simp add: H'_def prod_eq_iff)
  have sk: "skeleton H' = skeleton H"
    by (simp add: H'_def)
  have ok: "graph_ok H'" by (rule skeleton_graph_ok [OF sk Cons.prems(1)])
  have len: "\<forall>k \<in> set ns. k < length H'"
    using Cons.prems(2) skeleton_length [OF sk] by simp
  note IH = Cons.IH [OF ok len]
  have step: "for_node (n # ns) H = for_node ns H'" "called (n # ns) H = n # called ns H'"
    by (simp_all add: c)
  have "grad (snd (for_node ns H') ! m) = grad (H ! m)"
    if "\<forall>k \<in> set (n # ns). m \<notin> set (children H k)"
  proof -
    from that have "grad (H' ! m) = grad (H ! m)"
      using node_call(2) [OF Cons.prems(1) n, of m] by (simp add: H'_def)
    moreover from that IH have "grad (snd (for_node ns H') ! m) = grad (H' ! m)"
      by (simp add: skeleton_children [OF sk])
    ultimately show ?thesis by simp
  qed
  with IH show ?case unfolding step by blast
qed

text \<open>Every store that the constructors and operators build is well built.\<close>

lemma graph_ok_Nil: "graph_ok []"
  by (simp add: graph_ok_def)

lemma node_ok_append:
  assumes "n < length h" "node_ok h n"
  shows "node_ok (h @ xs) n"
proof -
  from assms have lt: "\<And>b. b \<in> set (prev (h ! n)) \<Longrightarrow> b < length h"
    by (fastforce simp: node_ok_def list_all_iff)
  have "closure_ok (h @ xs) n (prev (h ! n)) (backward_fn (h ! n))
      = closure_ok h n (prev (h ! n)) (backward_fn (h ! n))"
    by (rule closure_ok_data) (simp add: nth_append lt)
  with assms show ?thesis by (simp add: node_ok_def nth_append)
qed

lemma graph_ok_snoc:
  assumes "graph_ok h" "node_ok (h @ [nd]) (length h)"
  shows "graph_ok (h @ [nd])"
  unfolding graph_ok_iff
proof (intro allI impI)
  fix n assume "n < length (h @ [nd])"
  then consider "n < length h" | "n = length h" by fastforce
  then show "node_ok (h @ [nd]) n"
  proof cases
    case 1
    with assms(1) show ?thesis by (simp add: graph_ok_iff node_ok_append)
  next
    case 2
    with assms(2) show ?thesis by simp
  qed
qed

lemma graph_ok_leaf: "graph_ok h \<Longrightarrow> graph_ok (snd (leaf h x))"
  by (simp add: leaf_eq graph_ok_snoc node_ok_def)

lemma set_of_props: "distinct (set_of f cs)" "set (set_of f cs) = set cs"
  by (simp_all add: set_of_def)

lemma graph_ok_binary:
  assumes "graph_ok h" "a < length h" "b < length h"
  shows "graph_ok (snd (add f h a (Node b)))" "graph_ok (snd (sub f h a (Node b)))"
    "graph_ok (snd (mul f h a (Node b)))" "graph_ok (snd (truediv f h a (Node b)))"
  using assms
  by (simp_all add: add_Node sub_Node mul_Node truediv_Node graph_ok_snoc node_ok_def
      set_of_props list_all_iff nth_append)

lemma graph_ok_relu:
  assumes "graph_ok h" "a < length h"
  shows "graph_ok (snd (relu h a))"
  using assms by (simp add: relu_eq graph_ok_snoc node_ok_def)

lemma graph_ok_lifted:
  assumes "graph_ok h" "a < length h"
  shows "graph_ok (snd (add f h a (PyFloat x)))" "graph_ok (snd (sub f h a (PyFloat x)))"
    "graph_ok (snd (mul f h a (PyFloat x)))" "graph_ok (snd (truediv f h a (PyFloat x)))"
    "graph_ok (snd (rsub f h a (PyFloat x)))" "graph_ok (snd (rtruediv f h a (PyFloat x)))"
proof -
  have l: "graph_ok (snd (leaf h x))" "a < length (snd (leaf h x))"
    "length h < length (snd (leaf h x))"
    using assms by (simp_all add: graph_ok_leaf) (simp_all add: leaf_eq)
  show "graph_ok (snd (add f h a (PyFloat x)))" "graph_ok (snd (sub f h a (PyFloat x)))"
    "graph_ok (snd (mul f h a (PyFloat x)))" "graph_ok (snd (truediv f h a (PyFloat x)))"
    "graph_ok (snd (rsub f h a (PyFloat x)))" "graph_ok (snd (rtruediv f h a (PyFloat x)))"
    unfolding op_PyFloat
    by (rule graph_ok_binary [OF l(1,2,3)] graph_ok_binary [OF l(1,3,2)])+
qed

lemma graph_ok_backward: "graph_ok h \<Longrightarrow> graph_ok (snd (backward h t))"
  by (rule skeleton_graph_ok [OF skeleton_backward])

lemma graph_ok_diamond_chain: "graph_ok diamond_chain" "length diamond_chain = 4"
proof -
  have 0: "graph_ok (snd (leaf [] 2))" "length (snd (leaf [] 2)) = 1"
    by (simp_all add: graph_ok_leaf graph_ok_Nil) (simp add: leaf_eq)
  let ?h2 = "snd (mul False (snd (leaf [] 2)) 0 (Node 0))"
  have 1: "graph_ok ?h2" "length ?h2 = 2"
    using graph_ok_binary(3) [OF 0(1), of 0 0 False] 0(2) by (simp_all add: mul_Node)
  let ?h3 = "snd (add True ?h2 1 (Node 0))"
  have 2: "graph_ok ?h3" "length ?h3 = 3"
    using graph_ok_binary(1) [OF 1(1), of 1 0 True] 1(2) by (simp_all add: add_Node)
  let ?h4 = "snd (relu ?h3 2)"
  have 3: "graph_ok ?h4" "length ?h4 = 4"
    using graph_ok_relu [OF 2(1), of 2] 2(2) by (simp_all add: relu_eq)
  have "diamond_chain = ?h4"
    by (simp add: diamond_chain_def leaf_eq mul_Node add_Node relu_eq)
  with 3 show "graph_ok diamond_chain" "length diamond_chain = 4" by simp_all
qed



text \<open>
  C10. On every store the program can build, whatever gradients it holds, \<open>t.backward()\<close>
  returns with \<open>t.grad = 1\<close>: the seed is assigned, not added, and no object that the
  traversal reaches has \<open>t\<close> among its operands, so no rule writes to \<open>t.grad\<close> afterwards.
\<close>

theorem terminal_gradient_is_one:
  assumes "graph_ok h" and "t < length h"
  shows "fst (backward h t) = Return ()
       \<and> grad (snd (backward h t) ! t) = 1
       \<and> list_all (\<lambda>n. t \<notin> set (children h n)) (topo_of h t)"
proof -
  note d = graph_ok_descending [OF assms(1)]
  note o = topo_of_ordered [OF d, of t]
  have sk: "skeleton (seed h t) = skeleton h" by simp
  have ok: "graph_ok (seed h t)" by (rule skeleton_graph_ok [OF sk assms(1)])
  have le: "\<And>n. n \<in> set (topo_of h t) \<Longrightarrow> n \<le> t"
    using reachable_le [OF d, of _ t] by (simp add: o(2))
  have len: "\<forall>n \<in> set (rev (topo_of h t)). n < length (seed h t)"
    using le assms(2) skeleton_length [OF sk] by fastforce
  have no: "\<forall>n \<in> set (topo_of h t). t \<notin> set (children h n)"
    using le d by (fastforce simp: descending_def)
  then have no': "\<forall>n \<in> set (rev (topo_of h t)). t \<notin> set (children (seed h t) n)"
    by (simp add: skeleton_children [OF sk])
  from for_node_frame [OF ok len, of t] no'
  have "fst (backward h t) = Return ()" "grad (snd (backward h t) ! t) = grad (seed h t ! t)"
    by (simp_all add: backward_def)
  moreover have "grad (seed h t ! t) = 1" using assms(2) by (simp add: seed_def)
  ultimately show ?thesis using no by (simp add: list_all_iff)
qed

theorem terminal_gradient_is_one_witness:
  "graph_ok diamond_chain \<and> 3 < length diamond_chain
   \<and> fst (backward diamond_chain 3) = Return ()
   \<and> grad (snd (backward diamond_chain 3) ! 3) = 1
   \<and> grad (snd (backward (snd (backward diamond_chain 3)) 3) ! 3) = 1"
proof -
  have l: "3 < length diamond_chain" by (simp add: graph_ok_diamond_chain)
  have l': "3 < length (snd (backward diamond_chain 3))"
    using skeleton_length [OF skeleton_backward, of diamond_chain 3] l by simp
  show ?thesis
    using terminal_gradient_is_one [OF graph_ok_diamond_chain(1) l]
      terminal_gradient_is_one [OF graph_ok_backward [OF graph_ok_diamond_chain(1)] l']
      l graph_ok_diamond_chain(1)
    by simp
qed

section \<open>Calling backward twice\<close>

lemma call_shift:
  assumes "closure_ok h t ps r" "list_all (\<lambda>c. c < t) ps" "t < length H"
    "skeleton K = skeleton H" "grad (K ! t) = grad (H ! t)" "c < length H"
  shows "grad (snd (call r K) ! c) - grad (K ! c) = grad (snd (call r H) ! c) - grad (H ! c)"
proof -
  have len: "length K = length H" by (rule skeleton_length [OF assms(4)])
  have d: "\<And>n. n < length H \<Longrightarrow> data (K ! n) = data (H ! n)"
    by (rule skeleton_nth(1) [OF assms(4)])
  show ?thesis
  proof (cases r)
    case NoOp
    then show ?thesis by simp
  next
    case (AddBackward a b out)
    with assms(1,2) have "out = t" "a < t" "b < t" by (auto simp: list_all_iff)
    with assms(3,5,6) len show ?thesis
      by (simp add: AddBackward Let_def nth_add_grad grad_add_grad_other)
  next
    case (SubBackward a b out)
    with assms(1,2) have "out = t" "a < t" "b < t" by (auto simp: list_all_iff)
    with assms(3,5,6) len show ?thesis
      by (simp add: SubBackward Let_def nth_add_grad nth_sub_grad grad_add_grad_other)
  next
    case (MulBackward a b out)
    with assms(1,2) have "out = t" "a < t" "b < t" by (auto simp: list_all_iff)
    with assms(3,5,6) len d [of a] d [of b] show ?thesis
      by (simp add: MulBackward Let_def nth_add_grad grad_add_grad_other)
  next
    case (DivBackward a b out)
    with assms(1,2) have "out = t" "a < t" "b < t" by (auto simp: list_all_iff)
    with assms(3,5,6) len d [of a] d [of b] show ?thesis
      by (simp add: DivBackward Let_def nth_add_grad grad_add_grad_other)
  next
    case (ReluBackward a out)
    with assms(1,2) have "out = t" "a < t" by (auto simp: list_all_iff)
    with assms(3,5,6) len d [of t] show ?thesis
      by (simp add: ReluBackward Let_def nth_add_grad)
  qed
qed

lemma pass_grad:
  assumes "graph_ok h" "t < length h" "c \<noteq> t"
    "list_all (\<lambda>n. n = t \<or> c \<notin> set (children h n)) (topo_of h t)"
  shows "fst (backward h t) = Return ()"
    and "grad (snd (backward h t) ! c) = grad (snd (call (backward_fn (h ! t)) (seed h t)) ! c)"
proof -
  note d = graph_ok_descending [OF assms(1)]
  note o = topo_of_ordered [OF d, of t]
  define xs where "xs = snd (for_child h (children h t) ({t}, []))"
  have T: "topo_of h t = xs @ [t]" unfolding xs_def by (rule topo_of_last)
  have dist: "t \<notin> set xs" using o(1) by (simp add: T operands_first_def)
  have sk: "skeleton (seed h t) = skeleton h" by simp
  have ok: "graph_ok (seed h t)" by (rule skeleton_graph_ok [OF sk assms(1)])
  have len: "\<forall>n \<in> set (rev (topo_of h t)). n < length (seed h t)"
    using reachable_le [OF d, of _ t] assms(2) skeleton_length [OF sk] by (fastforce simp: o(2))
  show "fst (backward h t) = Return ()"
    using for_node_frame [OF ok len, of t] by (simp add: backward_def)
  define H1 where "H1 = snd (call (backward_fn (seed h t ! t)) (seed h t))"
  have t0: "t < length (seed h t)" using assms(2) skeleton_length [OF sk] by simp
  have c1: "call (backward_fn (seed h t ! t)) (seed h t) = (Return (), H1)"
    using node_call(1) [OF ok t0] by (simp add: H1_def prod_eq_iff)
  have sk1: "skeleton H1 = skeleton h" by (simp add: H1_def)
  have ok1: "graph_ok H1" by (rule skeleton_graph_ok [OF sk1 assms(1)])
  have len1: "\<forall>n \<in> set (rev xs). n < length H1"
    using len skeleton_length [OF sk1] skeleton_length [OF sk] by (simp add: T)
  have no: "\<forall>n \<in> set (rev xs). c \<notin> set (children H1 n)"
    using assms(4) dist by (auto simp: T list_all_iff skeleton_children [OF sk1])
  have "grad (snd (for_node (rev xs) H1) ! c) = grad (H1 ! c)"
    using for_node_frame [OF ok1 len1, of c] no by simp
  moreover have "backward h t = for_node (rev xs) H1"
    by (simp add: backward_def T c1)
  moreover have "backward_fn (seed h t ! t) = backward_fn (h ! t)"
    by (rule skeleton_nth(3) [OF sk assms(2)])
  ultimately show
    "grad (snd (backward h t) ! c) = grad (snd (call (backward_fn (h ! t)) (seed h t)) ! c)"
    by (simp add: H1_def)
qed

text \<open>
  C2, as stated, fails. In \<open>a = Scalar(2); m = a * 3.0; t = m * 5.0\<close> every gradient is 0
  and \<open>a\<close> is a leaf. After one \<open>t.backward()\<close>, \<open>a.grad\<close> is 15. The second call finds
  \<open>m.grad\<close> still at 5, adds 5 to it, and passes 10 * 3 down: \<open>a.grad\<close> is 45, three
  times the value after one call, not twice.
\<close>

theorem double_backward_counterexample:
  "prev (chain ! 0) = [] \<and> list_all (\<lambda>n. grad n = 0) chain
   \<and> grad (snd (backward chain 4) ! 0) = 15
   \<and> grad (snd (backward (snd (backward chain 4)) 4) ! 0) = 45"
  by (simp add: chain_def leaf_def Scalar_def set_of_def set_backward_def mul_def
      backward_def topo_of_def build_topo.simps children_def seed_def add_grad_def Let_def)

text \<open>
  C2, amended. On every store the program can build and for every terminal \<open>t\<close>, calling
  \<open>t.backward()\<close> twice in succession without zeroing any gradient returns both times and
  leaves at exactly double its value after the first call the gradient of every object
  \<open>c\<close> other than \<open>t\<close> whose gradient was 0 before the first call and which, among the
  objects the traversal reaches, is an operand of \<open>t\<close> only.
\<close>

theorem double_backward:
  assumes "graph_ok h" and "t < length h" and "c < length h" and "c \<noteq> t"
    and "grad (h ! c) = 0"
    and "list_all (\<lambda>n. n = t \<or> c \<notin> set (children h n)) (topo_of h t)"
  shows "fst (backward h t) = Return ()
       \<and> fst (backward (snd (backward h t)) t) = Return ()
       \<and> grad (snd (backward (snd (backward h t)) t) ! c) = 2 * grad (snd (backward h t) ! c)"
proof -
  define h' where "h' = snd (backward h t)"
  have sk: "skeleton h' = skeleton h" by (simp add: h'_def)
  have ok': "graph_ok h'" by (rule skeleton_graph_ok [OF sk assms(1)])
  have len: "length h' = length h" by (rule skeleton_length [OF sk])
  have t': "t < length h'" using assms(2) len by simp
  have only': "list_all (\<lambda>n. n = t \<or> c \<notin> set (children h' n)) (topo_of h' t)"
    using assms(6) by (simp add: skeleton_children [OF sk] skeleton_topo_of [OF sk])
  let ?r = "backward_fn (h ! t)"
  have r': "backward_fn (h' ! t) = ?r" by (rule skeleton_nth(3) [OF sk assms(2)])
  note p1 = pass_grad [OF assms(1,2,4,6)]
  note p2 = pass_grad [OF ok' t' assms(4) only']
  from assms(1,2) have cl: "closure_ok h t (prev (h ! t)) ?r" "list_all (\<lambda>c. c < t) (prev (h ! t))"
    by (simp_all add: graph_ok_iff node_ok_def)
  have s: "skeleton (seed h' t) = skeleton (seed h t)" by (simp add: sk)
  have ls: "t < length (seed h t)" "c < length (seed h t)"
    using assms(2,3) by (simp_all add: seed_def)
  have g: "grad (seed h' t ! t) = grad (seed h t ! t)"
    using assms(2) len by (simp add: seed_def)
  have shift: "grad (snd (call ?r (seed h' t)) ! c) - grad (seed h' t ! c)
      = grad (snd (call ?r (seed h t)) ! c) - grad (seed h t ! c)"
    by (rule call_shift [OF cl ls(1) s g ls(2)])
  have c0: "grad (seed h t ! c) = 0" "grad (seed h' t ! c) = grad (h' ! c)"
    using assms(4,5) by (simp_all add: seed_def)
  have "grad (snd (backward h' t) ! c) = 2 * grad (h' ! c)"
    using p1(2) [folded h'_def] p2(2) shift c0 by (simp add: r')
  with p1(1) p2(1) show ?thesis by (simp add: h'_def)
qed

lemma graph_ok_sum_of_product: "graph_ok sum_of_product" "length sum_of_product = 5"
proof -
  let ?h3 = "snd (leaf (snd (leaf (snd (leaf [] 2)) 3)) 7)"
  have 0: "graph_ok ?h3" "length ?h3 = 3"
    by (simp_all add: graph_ok_leaf graph_ok_Nil) (simp add: leaf_eq)
  let ?h4 = "snd (mul False ?h3 0 (Node 1))"
  have 1: "graph_ok ?h4" "length ?h4 = 4"
    using graph_ok_binary(3) [OF 0(1), of 0 1 False] 0(2) by (simp_all add: mul_Node)
  let ?h5 = "snd (add False ?h4 3 (Node 2))"
  have 2: "graph_ok ?h5" "length ?h5 = 5"
    using graph_ok_binary(1) [OF 1(1), of 3 2 False] 1(2) by (simp_all add: add_Node)
  have "sum_of_product = ?h5"
    by (simp add: sum_of_product_def leaf_eq mul_Node add_Node eval_nat_numeral)
  with 2 show "graph_ok sum_of_product" "length sum_of_product = 5" by simp_all
qed

theorem double_backward_witness:
  "graph_ok sum_of_product \<and> 4 < length sum_of_product \<and> 2 < length sum_of_product
   \<and> (2::nat) \<noteq> 4 \<and> grad (sum_of_product ! 2) = 0
   \<and> list_all (\<lambda>n. n = 4 \<or> 2 \<notin> set (children sum_of_product n)) (topo_of sum_of_product 4)
   \<and> grad (snd (backward sum_of_product 4) ! 2) = 1
   \<and> grad (snd (backward (snd (backward sum_of_product 4)) 4) ! 2)
       = 2 * grad (snd (backward sum_of_product 4) ! 2)"
proof -
  have l: "4 < length sum_of_product" "2 < length sum_of_product"
    by (simp_all add: graph_ok_sum_of_product)
  have n: "(2::nat) \<noteq> 4" by simp
  have g: "grad (sum_of_product ! 2) = 0"
    by (simp add: sum_of_product_def leaf_eq mul_Node add_Node)
  have t: "topo_of sum_of_product 4 = [0, 1, 3, 2, 4]"
    by (simp add: sum_of_product_def topo_of_def leaf_eq mul_Node add_Node
        build_topo.simps children_def set_of_def)
  have o: "list_all (\<lambda>n. n = 4 \<or> 2 \<notin> set (children sum_of_product n))
             (topo_of sum_of_product 4)"
    unfolding t
    by (simp add: sum_of_product_def leaf_eq mul_Node add_Node children_def set_of_def)
  have one: "grad (snd (backward sum_of_product 4) ! 2) = 1"
    by (simp add: backward_def t)
      (simp add: sum_of_product_def leaf_eq mul_Node add_Node seed_def add_grad_def Let_def)
  show ?thesis
    using double_backward [OF graph_ok_sum_of_product(1) l n g o]
      graph_ok_sum_of_product(1) l g o one
    by simp
qed

end
